theory Spec2Isabelle
  imports Main "HOL-Library.Sublist"
begin

section \<open>Python values\<close>

text \<open>
  The action methods of a component are called with arguments that arrive from the
  client, so an argument is a dynamically typed value. The values modelled are the
  ones a call can carry: \<open>None\<close>, booleans, integers, strings, lists and dictionaries
  (a dictionary as an association list, in insertion order). A \<open>str\<close> is a
  \<open>string\<close>: the UTF-8 bytes of its text. Floating-point numbers are left out.
\<close>

datatype pyval =
    PyNone
  | PyBool bool
  | PyInt int
  | PyStr string
  | PyList "pyval list"
  | PyDict "(string \<times> pyval) list"

text \<open>Python's truth value of an object, as \<open>if name:\<close> tests it.\<close>

fun truthy :: "pyval \<Rightarrow> bool" where
  "truthy PyNone = False"
| "truthy (PyBool b) = b"
| "truthy (PyInt i) = (i \<noteq> 0)"
| "truthy (PyStr s) = (s \<noteq> [])"
| "truthy (PyList xs) = (xs \<noteq> [])"
| "truthy (PyDict kvs) = (kvs \<noteq> [])"

section \<open>The component \<open>HtmlInputsView\<close> (example/unicorn/components/html\_inputs.py)\<close>

text \<open>
  The attributes the class body declares, with \<open>name\<close>, which the class does not
  declare: it exists on an instance only once \<open>set_name\<close> has assigned it, so it is
  optional here. \<open>ALL_STATES\<close> is read through \<open>self\<close> by the code, so it is a
  field like the others.
\<close>

record HtmlInputsView =
  is_checked :: bool
  thing :: string
  things :: "string list"
  pie :: string
  "paragraph" :: string
  state :: string
  ALL_STATES :: "string list"
  name :: "pyval option"

definition ALL_STATES_default :: "string list" where
  "ALL_STATES_default =
    [''Alabama'', ''Alaska'', ''Arizona'', ''Arkansas'', ''California'', ''Colorado'',
     ''Connecticut'', ''Delaware'', ''Florida'', ''Georgia'', ''Hawaii'', ''Idaho'',
     ''Illinois'', ''Indiana'', ''Iowa'', ''Kansas'', ''Kentucky'', ''Louisiana'',
     ''Maine'', ''Maryland'', ''Massachusetts'', ''Michigan'', ''Minnesota'',
     ''Mississippi'', ''Missouri'', ''Montana'', ''Nebraska'', ''Nevada'',
     ''New Hampshire'', ''New Jersey'', ''New Mexico'', ''New York'',
     ''North Carolina'', ''North Dakota'', ''Ohio'', ''Oklahoma'', ''Oregon'',
     ''Pennsylvania'', ''Rhode Island'', ''South Carolina'', ''South Dakota'',
     ''Tennessee'', ''Texas'', ''Utah'', ''Vermont'', ''Virginia'', ''Washington'',
     ''West Virginia'', ''Wisconsin'', ''Wyoming'']"

text \<open>
  A fresh instance: every attribute has the value of the class body. The default of
  \<open>thing\<close> is the single character U+1F419, four bytes in UTF-8.
\<close>

definition HtmlInputsView_new :: HtmlInputsView where
  "HtmlInputsView_new =
    \<lparr> is_checked = False,
      thing = [CHR 0xF0, CHR 0x9F, CHR 0x90, CHR 0x99],
      things = [''alien''],
      pie = ''cherry'',
      paragraph = '''',
      state = '''',
      ALL_STATES = ALL_STATES_default,
      name = None \<rparr>"

text \<open>
  \<open>set_name(self, name=None)\<close>: the argument is \<open>None\<close> here when the call omits
  it, and the parameter's default, Python's \<open>None\<close>, takes its place.
\<close>

definition set_name :: "HtmlInputsView \<Rightarrow> pyval option \<Rightarrow> HtmlInputsView" where
  "set_name self arg =
    (let name_arg = (case arg of None \<Rightarrow> PyNone | Some v \<Rightarrow> v)
     in if truthy name_arg
        then self\<lparr>name := Some name_arg\<rparr>
        else self\<lparr>name := Some (PyStr ''Universe'')\<rparr>)"

definition clear_states :: "HtmlInputsView \<Rightarrow> HtmlInputsView" where
  "clear_states self = self\<lparr>state := ''''\<rparr>"

text \<open>
  \<open>states(self)\<close>. \<open>str.lower\<close> is Python's own, defined by the Unicode case
  tables, which are no part of this repository: it is the parameter \<open>lower\<close>.
  \<open>a.startswith(b)\<close> is \<open>prefix b a\<close>.
\<close>

definition states :: "(string \<Rightarrow> string) \<Rightarrow> HtmlInputsView \<Rightarrow> string list" where
  "states lower self =
    (if state self = [] then []
     else [s. s \<leftarrow> ALL_STATES self, prefix (lower (state self)) (lower s)])"

text \<open>
  \<open>str.lower\<close> on ASCII text, where it maps \<open>A\<close> to \<open>Z\<close> onto \<open>a\<close> to \<open>z\<close> and
  nothing else: the instance of \<open>lower\<close> the examples are evaluated with.
\<close>

definition ascii_lower_char :: "char \<Rightarrow> char" where
  "ascii_lower_char c =
    (let n = (of_char c :: nat) in if 65 \<le> n \<and> n \<le> 90 then char_of (n + 32) else c)"

definition ascii_lower :: "string \<Rightarrow> string" where
  "ascii_lower s = map ascii_lower_char s"

section \<open>The component tree and the cacheable wrapper\<close>

text \<open>
  \<open>CacheableComponent\<close> and the component class are defined in
  \<open>django_unicorn/utils.py\<close> and \<open>django_unicorn/components\<close>, which are not among the
  sources; tests/test\_utils.py constructs components and enters the wrapper. What
  follows is a model of the two from the specification's description and from the
  attributes the tests use.

  Components are objects that refer to each other, and the wrapper mutates them in
  place, so they live in a store: a list of components, a reference being an index
  into it.
\<close>

type_synonym ref = nat

text \<open>
  Modelled from the spec: the component class (\<open>UnicornView\<close>), missing from the
  sources. The spec's data model gives a component a unique identifier, a name, an
  ordered list of child component references, a transient request reference and a
  transient extra-context reference; the tests also pass \<open>parent=\<close> to the
  constructor. A transient reference is \<open>None\<close> or some object of type \<open>'r\<close>
  (\<open>'x\<close> for the extra context).
\<close>

record ('r, 'x) component =
  component_id :: string
  component_name :: string
  parent :: "ref option"
  children :: "ref list"
  request :: "'r option"
  extra_context :: "'x option"

type_synonym ('r, 'x) heap = "('r, 'x) component list"

text \<open>What the wrapper remembers of a component: its reference and the two values.\<close>

type_synonym ('r, 'x) saved = "(ref \<times> 'r option \<times> 'x option) list"

text \<open>
  Modelled from the spec: the object \<open>CacheableComponent(component)\<close> builds, missing
  from the sources: the component it was given and what it has to restore.
\<close>

record ('r, 'x) CacheableComponent =
  cacheable_component :: ref
  saved_state :: "('r, 'x) saved"

text \<open>
  Modelled from the spec: "nulls out non-serializable references (request, extra
  context)" of one component.
\<close>

definition strip_transient :: "('r, 'x) component \<Rightarrow> ('r, 'x) component" where
  "strip_transient c = c\<lparr>request := None, extra_context := None\<rparr>"

text \<open>
  Modelled from the spec: the components one step away in the "parent/child component
  tree": the parent, when there is one, and the children in order.
\<close>

definition neighbours :: "('r, 'x) heap \<Rightarrow> ref \<Rightarrow> ref list" where
  "neighbours h r =
    (case parent (h ! r) of None \<Rightarrow> [] | Some p \<Rightarrow> [p]) @ children (h ! r)"

text \<open>
  Modelled from the spec: the walk over the tree that strips every component it
  meets, from a work list \<open>todo\<close>. A component already remembered is skipped, so
  the walk ends on a tree whose parents list their children as well as on one whose
  links go one way only. A reference outside the store is skipped too: a Python
  object cannot hold one, and the case is there to make the function total.
\<close>

function strip_tree ::
  "('r, 'x) heap \<Rightarrow> ref list \<Rightarrow> ('r, 'x) saved \<Rightarrow> ('r, 'x) saved \<times> ('r, 'x) heap" where
  "strip_tree h [] st = (st, h)"
| "strip_tree h (r # todo) st =
    (if length h \<le> r \<or> map_of st r \<noteq> None then strip_tree h todo st
     else strip_tree (h[r := strip_transient (h ! r)]) (neighbours h r @ todo)
            ((r, request (h ! r), extra_context (h ! r)) # st))"
  by pat_completeness auto

text \<open>
  Each step either remembers a component that was not remembered before, or shortens
  the work list and remembers nothing.
\<close>

termination
proof (relation "measures [\<lambda>(h, todo, st). card ({..<length h} - dom (map_of st)),
                           \<lambda>(h, todo, st). length todo]")
  show "wf (measures [\<lambda>(h, todo, st). card ({..<length h} - dom (map_of st)),
                           \<lambda>(h, todo, st). length (todo :: ref list)])"
    by simp
next
  fix h :: "('r, 'x) heap" and r todo and st :: "('r, 'x) saved"
  assume "length h \<le> r \<or> map_of st r \<noteq> None"
  then show "((h, todo, st), h, r # todo, st)
       \<in> measures
           [\<lambda>(h, todo, st). card ({..<length h} - dom (map_of st)),
            \<lambda>(h, todo, st). length todo]"
    by simp
next
  fix h :: "('r, 'x) heap" and r todo and st :: "('r, 'x) saved"
  assume fresh: "\<not> (length h \<le> r \<or> map_of st r \<noteq> None)"
  have "{..<length h} - dom (map_of ((r, request (h ! r), extra_context (h ! r)) # st))
        \<subset> {..<length h} - dom (map_of st)"
    using fresh by auto
  then have "card ({..<length h} - dom (map_of ((r, request (h ! r), extra_context (h ! r)) # st)))
        < card ({..<length h} - dom (map_of st))"
    by (intro psubset_card_mono) auto
  then show "((h[r := strip_transient (h ! r)], neighbours h r @ todo,
         (r, request (h ! r), extra_context (h ! r)) # st),
        h, r # todo, st)
       \<in> measures
           [\<lambda>(h, todo, st). card ({..<length h} - dom (map_of st)),
            \<lambda>(h, todo, st). length todo]"
    by simp
qed

text \<open>
  Modelled from the spec: entering the scope (\<open>with CacheableComponent(component):\<close>),
  missing from the sources. It returns the wrapper and the store as the body of the
  \<open>with\<close> statement finds it.
\<close>

definition CacheableComponent_enter ::
  "('r, 'x) heap \<Rightarrow> ref \<Rightarrow> ('r, 'x) CacheableComponent \<times> ('r, 'x) heap" where
  "CacheableComponent_enter h r =
    (let (st, h') = strip_tree h [r] []
     in (\<lparr>cacheable_component = r, saved_state = st\<rparr>, h'))"

text \<open>Modelled from the spec: "restoring them afterward", for one component.\<close>

definition restore_one ::
  "ref \<times> 'r option \<times> 'x option \<Rightarrow> ('r, 'x) heap \<Rightarrow> ('r, 'x) heap" where
  "restore_one e h =
    (case e of (r, rq, ec) \<Rightarrow> h[r := (h ! r)\<lparr>request := rq, extra_context := ec\<rparr>])"

text \<open>
  Modelled from the spec: leaving the scope, missing from the sources: every
  remembered component gets its two references back.
\<close>

definition CacheableComponent_exit ::
  "('r, 'x) CacheableComponent \<Rightarrow> ('r, 'x) heap \<Rightarrow> ('r, 'x) heap" where
  "CacheableComponent_exit cc h = fold restore_one (saved_state cc) h"

text \<open>
  The components a claim speaks of. \<open>in_subtree h r d\<close>: \<open>d\<close> is the component
  \<open>r\<close> or one of its descendants. \<open>in_parent_chain h r a\<close>: \<open>a\<close> is \<open>r\<close> or one
  of its ancestors. \<open>in_tree h r a\<close>: \<open>a\<close> is reached from \<open>r\<close> by parent and
  child links in any order.
\<close>

inductive in_subtree :: "('r, 'x) heap \<Rightarrow> ref \<Rightarrow> ref \<Rightarrow> bool" for h r where
  root: "r < length h \<Longrightarrow> in_subtree h r r"
| child: "in_subtree h r a \<Longrightarrow> k \<in> set (children (h ! a)) \<Longrightarrow> k < length h \<Longrightarrow>
    in_subtree h r k"

inductive in_parent_chain :: "('r, 'x) heap \<Rightarrow> ref \<Rightarrow> ref \<Rightarrow> bool" for h r where
  start: "r < length h \<Longrightarrow> in_parent_chain h r r"
| up: "in_parent_chain h r a \<Longrightarrow> parent (h ! a) = Some p \<Longrightarrow> p < length h \<Longrightarrow>
    in_parent_chain h r p"

inductive in_tree :: "('r, 'x) heap \<Rightarrow> ref \<Rightarrow> ref \<Rightarrow> bool" for h r where
  here: "r < length h \<Longrightarrow> in_tree h r r"
| down: "in_tree h r a \<Longrightarrow> k \<in> set (children (h ! a)) \<Longrightarrow> k < length h \<Longrightarrow>
    in_tree h r k"
| above: "in_tree h r a \<Longrightarrow> parent (h ! a) = Some p \<Longrightarrow> p < length h \<Longrightarrow>
    in_tree h r p"

code_pred in_subtree .
code_pred in_parent_chain .
code_pred in_tree .

text \<open>
  The components of tests/test\_utils.py: \<open>FakeComponent\<close> with the request (a mock
  object, here the number 7) and the extra context the tests assign.
\<close>

definition FakeComponent ::
  "string \<Rightarrow> ref option \<Rightarrow> ref list \<Rightarrow> (nat, string) component" where
  "FakeComponent i p cs =
    \<lparr>component_id = i, component_name = ''hello-world'', parent = p, children = cs,
     request = Some 7, extra_context = Some ''extra_content''\<rparr>"

text \<open>
  \<open>test_restore_cached_component_children_have_request_set\<close>: \<open>component\<close> has the
  children \<open>component2\<close> and \<open>component3\<close>, and \<open>component3\<close> has the child
  \<open>component4\<close>.
\<close>

definition children_heap :: "(nat, string) heap" where
  "children_heap =
    [FakeComponent ''asdf123498'' None [1, 2], FakeComponent ''asdf123499'' None [],
     FakeComponent ''asdf123500'' None [3], FakeComponent ''asdf123501'' None []]"

text \<open>
  \<open>test_cacheable_component_parents_have_request_restored\<close>: \<open>component2\<close> has the
  parent \<open>component\<close>, and \<open>component3\<close> has the parent \<open>component2\<close>.
\<close>

definition parents_heap :: "(nat, string) heap" where
  "parents_heap =
    [FakeComponent ''asdf123498'' None [], FakeComponent ''asdf123499'' (Some 0) [],
     FakeComponent ''asdf123500'' (Some 1) []]"

section \<open>Properties of \<open>HtmlInputsView\<close>\<close>

text \<open>A list comprehension with one generator and one condition is a filter.\<close>

lemma comprehension_filter:
  "[s. s \<leftarrow> xs, P s] = filter P xs"
  by (induction xs) simp_all

text \<open>
  C5. For every value of the field \<open>state\<close>: when it is the empty string,
  \<open>states()\<close> returns the empty list; otherwise it returns exactly the entries of
  \<open>ALL_STATES\<close> whose lowercase form starts with the lowercase form of \<open>state\<close>, in
  the order of \<open>ALL_STATES\<close>. It holds whatever \<open>str.lower\<close> computes.
\<close>

theorem states_spec:
  "(state self = '''' \<longrightarrow> states lower self = []) \<and>
   (state self \<noteq> '''' \<longrightarrow>
      states lower self =
        filter (\<lambda>s. prefix (lower (state self)) (lower s)) (ALL_STATES self))"
  by (simp add: states_def comprehension_filter)

theorem states_spec_witness:
  "states ascii_lower (HtmlInputsView_new\<lparr>state := ''''\<rparr>) = [] \<and>
   states ascii_lower (HtmlInputsView_new\<lparr>state := ''nEw''\<rparr>) =
     [''New Hampshire'', ''New Jersey'', ''New Mexico'', ''New York'']"
proof -
  let ?e = "HtmlInputsView_new\<lparr>state := ''''\<rparr>"
  let ?n = "HtmlInputsView_new\<lparr>state := ''nEw''\<rparr>"
  have "state ?e = ''''"
    by simp
  then have empty: "states ascii_lower ?e = []"
    using states_spec [of ?e ascii_lower] by blast
  have "state ?n \<noteq> ''''"
    by simp
  then have "states ascii_lower ?n =
      filter (\<lambda>s. prefix (ascii_lower (state ?n)) (ascii_lower s)) (ALL_STATES ?n)"
    using states_spec [of ?n ascii_lower] by blast
  also have "\<dots> = [''New Hampshire'', ''New Jersey'', ''New Mexico'', ''New York'']"
    by code_simp
  finally show ?thesis
    using empty by simp
qed

text \<open>
  C6. \<open>clear_states()\<close> sets \<open>state\<close> to the empty string and leaves
  \<open>is_checked\<close>, \<open>thing\<close>, \<open>things\<close>, \<open>pie\<close>, \<open>paragraph\<close>, \<open>name\<close> and
  \<open>ALL_STATES\<close> as they were.
\<close>

theorem clear_states_frame:
  "state (clear_states self) = '''' \<and>
   is_checked (clear_states self) = is_checked self \<and>
   thing (clear_states self) = thing self \<and>
   things (clear_states self) = things self \<and>
   pie (clear_states self) = pie self \<and>
   paragraph (clear_states self) = paragraph self \<and>
   name (clear_states self) = name self \<and>
   ALL_STATES (clear_states self) = ALL_STATES self"
  by (simp add: clear_states_def)

theorem clear_states_frame_witness:
  "clear_states (HtmlInputsView_new\<lparr>state := ''new'', name := Some (PyStr ''World'')\<rparr>) =
     HtmlInputsView_new\<lparr>name := Some (PyStr ''World'')\<rparr>"
  using clear_states_frame
    [of "HtmlInputsView_new\<lparr>state := ''new'', name := Some (PyStr ''World'')\<rparr>"]
  by (simp add: HtmlInputsView_new_def)

text \<open>
  C7. \<open>set_name\<close> stores its argument in \<open>name\<close> when the argument is truthy (a
  non-empty string, for one), and stores \<open>"Universe"\<close> when the argument is omitted,
  is \<open>None\<close> or is falsy in any other way (the empty string, for one).
\<close>

theorem set_name_spec:
  "(truthy v \<longrightarrow> name (set_name self (Some v)) = Some v) \<and>
   (\<not> truthy v \<longrightarrow> name (set_name self (Some v)) = Some (PyStr ''Universe'')) \<and>
   name (set_name self None) = Some (PyStr ''Universe'') \<and>
   name (set_name self (Some PyNone)) = Some (PyStr ''Universe'') \<and>
   name (set_name self (Some (PyStr ''''))) = Some (PyStr ''Universe'') \<and>
   (s \<noteq> '''' \<longrightarrow> name (set_name self (Some (PyStr s))) = Some (PyStr s))"
  by (simp add: set_name_def)

theorem set_name_spec_witness:
  "name (set_name HtmlInputsView_new (Some (PyStr ''World''))) = Some (PyStr ''World'') \<and>
   name (set_name HtmlInputsView_new (Some (PyInt 0))) = Some (PyStr ''Universe'') \<and>
   name (set_name HtmlInputsView_new (Some (PyList []))) = Some (PyStr ''Universe'') \<and>
   name (set_name HtmlInputsView_new (Some (PyInt 7))) = Some (PyInt 7)"
proof -
  have t: "truthy (PyStr ''World'')" "truthy (PyInt 7)"
    and f: "\<not> truthy (PyInt 0)" "\<not> truthy (PyList [])"
    by simp_all
  show ?thesis
    using t f
      set_name_spec [of "PyStr ''World''" HtmlInputsView_new]
      set_name_spec [of "PyInt 7" HtmlInputsView_new]
      set_name_spec [of "PyInt 0" HtmlInputsView_new]
      set_name_spec [of "PyList []" HtmlInputsView_new]
    by blast
qed

section \<open>Properties of the cacheable wrapper\<close>

lemma strip_tree_length:
  "length (snd (strip_tree h todo st)) = length h"
  by (induction h todo st rule: strip_tree.induct) simp_all

lemma strip_tree_keeps:
  "map_of st a = Some v \<Longrightarrow> map_of (fst (strip_tree h todo st)) a = Some v"
proof (induction h todo st rule: strip_tree.induct)
  case (1 h st)
  then show ?case by simp
next
  case (2 h r todo st)
  show ?case
  proof (cases "length h \<le> r \<or> map_of st r \<noteq> None")
    case True
    with 2 show ?thesis by simp
  next
    case False
    then have "map_of st r = None" by blast
    with "2.prems" have "a \<noteq> r" by force
    with False 2 show ?thesis by simp
  qed
qed

lemma strip_tree_distinct:
  "distinct (map fst st) \<Longrightarrow> distinct (map fst (fst (strip_tree h todo st)))"
proof (induction h todo st rule: strip_tree.induct)
  case (1 h st)
  then show ?case by simp
next
  case (2 h r todo st)
  show ?case
  proof (cases "length h \<le> r \<or> map_of st r \<noteq> None")
    case True
    with 2 show ?thesis by simp
  next
    case False
    then have "r \<notin> fst ` set st"
      by (simp add: map_of_eq_None_iff)
    with 2 False show ?thesis by simp
  qed
qed

lemma strip_tree_old:
  "map_of st a \<noteq> None \<Longrightarrow> snd (strip_tree h todo st) ! a = h ! a"
proof (induction h todo st rule: strip_tree.induct)
  case (1 h st)
  then show ?case by simp
next
  case (2 h r todo st)
  show ?case
  proof (cases "length h \<le> r \<or> map_of st r \<noteq> None")
    case True
    with 2 show ?thesis by simp
  next
    case False
    then have "map_of st r = None" by blast
    with "2.prems" have "a \<noteq> r" by force
    with False 2 show ?thesis by simp
  qed
qed

lemma strip_tree_untouched:
  "map_of (fst (strip_tree h todo st)) a = None \<Longrightarrow> snd (strip_tree h todo st) ! a = h ! a"
proof (induction h todo st rule: strip_tree.induct)
  case (1 h st)
  then show ?case by simp
next
  case (2 h r todo st)
  show ?case
  proof (cases "length h \<le> r \<or> map_of st r \<noteq> None")
    case True
    with 2 show ?thesis by simp
  next
    case False
    let ?h = "h[r := strip_transient (h ! r)]"
    let ?st = "(r, request (h ! r), extra_context (h ! r)) # st"
    let ?todo = "neighbours h r @ todo"
    from False 2 have none: "map_of (fst (strip_tree ?h ?todo ?st)) a = None"
      by simp
    have "map_of (fst (strip_tree ?h ?todo ?st)) r \<noteq> None"
      using strip_tree_keeps [of ?st r _ ?h ?todo] by simp
    with none have "a \<noteq> r" by auto
    moreover from False none 2 have "snd (strip_tree ?h ?todo ?st) ! a = ?h ! a"
      by simp
    ultimately show ?thesis using False by simp
  qed
qed

lemma strip_tree_new:
  "map_of st a = None \<Longrightarrow> map_of (fst (strip_tree h todo st)) a = Some v \<Longrightarrow>
   a < length h \<and> v = (request (h ! a), extra_context (h ! a)) \<and>
   snd (strip_tree h todo st) ! a = strip_transient (h ! a)"
proof (induction h todo st rule: strip_tree.induct)
  case (1 h st)
  then show ?case by simp
next
  case (2 h r todo st)
  show ?case
  proof (cases "length h \<le> r \<or> map_of st r \<noteq> None")
    case True
    with 2 show ?thesis by simp
  next
    case False
    let ?h = "h[r := strip_transient (h ! r)]"
    let ?st = "(r, request (h ! r), extra_context (h ! r)) # st"
    let ?todo = "neighbours h r @ todo"
    from False 2 have some: "map_of (fst (strip_tree ?h ?todo ?st)) a = Some v"
      by simp
    show ?thesis
    proof (cases "a = r")
      case True
      have "map_of (fst (strip_tree ?h ?todo ?st)) r = Some (request (h ! r), extra_context (h ! r))"
        by (rule strip_tree_keeps) simp
      with some True have v: "v = (request (h ! r), extra_context (h ! r))"
        by simp
      have "snd (strip_tree ?h ?todo ?st) ! r = ?h ! r"
        by (rule strip_tree_old) simp
      with False True v show ?thesis by simp
    next
      case neq: False
      with 2 have "map_of ?st a = None" by simp
      with False some 2 have "a < length ?h \<and> v = (request (?h ! a), extra_context (?h ! a)) \<and>
         snd (strip_tree ?h ?todo ?st) ! a = strip_transient (?h ! a)"
        by blast
      with neq False show ?thesis by simp
    qed
  qed
qed

lemma strip_tree_todo:
  "a \<in> set todo \<Longrightarrow> a < length h \<Longrightarrow> map_of (fst (strip_tree h todo st)) a \<noteq> None"
proof (induction h todo st rule: strip_tree.induct)
  case (1 h st)
  then show ?case by simp
next
  case (2 h r todo st)
  show ?case
  proof (cases "length h \<le> r \<or> map_of st r \<noteq> None")
    case True
    show ?thesis
    proof (cases "a = r")
      case ar: True
      with True 2 obtain v where "map_of st r = Some v" by auto
      then have "map_of (fst (strip_tree h todo st)) r = Some v"
        by (rule strip_tree_keeps)
      with True ar show ?thesis by simp
    next
      case False
      with True 2 show ?thesis by simp
    qed
  next
    case False
    let ?h = "h[r := strip_transient (h ! r)]"
    let ?st = "(r, request (h ! r), extra_context (h ! r)) # st"
    let ?todo = "neighbours h r @ todo"
    show ?thesis
    proof (cases "a = r")
      case True
      have "map_of (fst (strip_tree ?h ?todo ?st)) r = Some (request (h ! r), extra_context (h ! r))"
        by (rule strip_tree_keeps) simp
      with False True show ?thesis by simp
    next
      case neq: False
      with 2 have "a \<in> set ?todo" "a < length ?h" by simp_all
      with False 2 have "map_of (fst (strip_tree ?h ?todo ?st)) a \<noteq> None"
        by blast
      with False show ?thesis by simp
    qed
  qed
qed

lemma neighbours_update:
  "a \<noteq> r \<Longrightarrow> neighbours (h[r := c]) a = neighbours h a"
  by (simp add: neighbours_def)

lemma strip_tree_closed:
  "map_of st a = None \<Longrightarrow> map_of (fst (strip_tree h todo st)) a \<noteq> None \<Longrightarrow>
   b \<in> set (neighbours h a) \<Longrightarrow> b < length h \<Longrightarrow>
   map_of (fst (strip_tree h todo st)) b \<noteq> None"
proof (induction h todo st rule: strip_tree.induct)
  case (1 h st)
  then show ?case by simp
next
  case (2 h r todo st)
  show ?case
  proof (cases "length h \<le> r \<or> map_of st r \<noteq> None")
    case True
    with 2 show ?thesis by simp
  next
    case False
    let ?h = "h[r := strip_transient (h ! r)]"
    let ?st = "(r, request (h ! r), extra_context (h ! r)) # st"
    let ?todo = "neighbours h r @ todo"
    show ?thesis
    proof (cases "a = r")
      case True
      with 2 have "b \<in> set ?todo" "b < length ?h" by simp_all
      then have "map_of (fst (strip_tree ?h ?todo ?st)) b \<noteq> None"
        by (rule strip_tree_todo)
      with False show ?thesis by simp
    next
      case neq: False
      with 2 have "map_of ?st a = None" by simp
      moreover from False 2 have "map_of (fst (strip_tree ?h ?todo ?st)) a \<noteq> None"
        by simp
      moreover from neq 2 have "b \<in> set (neighbours ?h a)"
        by (simp add: neighbours_update)
      moreover from 2 have "b < length ?h" by simp
      ultimately have "map_of (fst (strip_tree ?h ?todo ?st)) b \<noteq> None"
        using False 2 by blast
      with False show ?thesis by simp
    qed
  qed
qed


lemma in_subtree_in_tree: "in_subtree h r a \<Longrightarrow> in_tree h r a"
  by (induction rule: in_subtree.induct) (auto intro: in_tree.intros)

lemma in_parent_chain_in_tree: "in_parent_chain h r a \<Longrightarrow> in_tree h r a"
  by (induction rule: in_parent_chain.induct) (auto intro: in_tree.intros)

lemma in_tree_saved:
  "in_tree h r a \<Longrightarrow> map_of (fst (strip_tree h [r] [])) a \<noteq> None"
proof (induction rule: in_tree.induct)
  case here
  have "r \<in> set [r]" by simp
  then show ?case using here by (rule strip_tree_todo)
next
  case (down a k)
  have "map_of [] a = (None :: ('a option \<times> 'b option) option)" by simp
  moreover note down.IH
  moreover from down have "k \<in> set (neighbours h a)"
    by (simp add: neighbours_def)
  moreover note \<open>k < length h\<close>
  ultimately show ?case by (rule strip_tree_closed)
next
  case (above a p)
  have "map_of [] a = (None :: ('a option \<times> 'b option) option)" by simp
  moreover note above.IH
  moreover from above have "p \<in> set (neighbours h a)"
    by (simp add: neighbours_def)
  moreover note \<open>p < length h\<close>
  ultimately show ?case by (rule strip_tree_closed)
qed

lemma restore_length: "length (fold restore_one st h) = length h"
  by (induction st arbitrary: h) (simp_all add: restore_one_def split: prod.splits)

lemma restore_nth:
  "distinct (map fst st) \<Longrightarrow> a < length h \<Longrightarrow>
   fold restore_one st h ! a =
     (case map_of st a of None \<Rightarrow> h ! a
      | Some (rq, ec) \<Rightarrow> (h ! a)\<lparr>request := rq, extra_context := ec\<rparr>)"
proof (induction st arbitrary: h)
  case Nil
  then show ?case by simp
next
  case (Cons e st)
  obtain r rq ec where e: "e = (r, rq, ec)"
    by (cases e)
  let ?h = "h[r := (h ! r)\<lparr>request := rq, extra_context := ec\<rparr>]"
  from Cons e have IH: "fold restore_one st ?h ! a =
     (case map_of st a of None \<Rightarrow> ?h ! a
      | Some (rq, ec) \<Rightarrow> (?h ! a)\<lparr>request := rq, extra_context := ec\<rparr>)"
    by simp
  have step: "fold restore_one (e # st) h = fold restore_one st ?h"
    by (simp add: e restore_one_def)
  show ?case
  proof (cases "a = r")
    case True
    with Cons e have "map_of st a = None"
      by (simp add: map_of_eq_None_iff)
    with IH True Cons e show ?thesis
      unfolding step by simp
  next
    case False
    with IH e show ?thesis
      unfolding step by (simp split: option.splits)
  qed
qed

lemma strip_restore:
  "strip_transient c\<lparr>request := request c, extra_context := extra_context c\<rparr> = c"
  by (simp add: strip_transient_def)

lemma enter_saved:
  "saved_state (fst (CacheableComponent_enter h r)) = fst (strip_tree h [r] [])"
  unfolding CacheableComponent_enter_def by (simp add: case_prod_beta del: strip_tree.simps)

lemma enter_heap:
  "snd (CacheableComponent_enter h r) = snd (strip_tree h [r] [])"
  unfolding CacheableComponent_enter_def by (simp add: case_prod_beta del: strip_tree.simps)

lemma enter_exit_identity:
  "CacheableComponent_exit (fst (CacheableComponent_enter h r))
     (snd (CacheableComponent_enter h r)) = h"
proof (rule nth_equalityI)
  let ?st = "fst (strip_tree h [r] [])"
  let ?h = "snd (strip_tree h [r] [])"
  have eq: "CacheableComponent_exit (fst (CacheableComponent_enter h r))
     (snd (CacheableComponent_enter h r)) = fold restore_one ?st ?h"
    by (simp add: CacheableComponent_exit_def enter_saved enter_heap del: strip_tree.simps)
  show "length (CacheableComponent_exit (fst (CacheableComponent_enter h r))
     (snd (CacheableComponent_enter h r))) = length h"
    by (simp add: eq restore_length strip_tree_length)
  fix a
  assume "a < length (CacheableComponent_exit (fst (CacheableComponent_enter h r))
     (snd (CacheableComponent_enter h r)))"
  then have a: "a < length ?h"
    by (simp add: eq restore_length)
  have d: "distinct (map fst ?st)"
    by (rule strip_tree_distinct) simp
  have "fold restore_one ?st ?h ! a = h ! a"
  proof (cases "map_of ?st a")
    case None
    then have "?h ! a = h ! a"
      by (rule strip_tree_untouched)
    with None d a show ?thesis
      by (simp add: restore_nth)
  next
    case (Some v)
    have "map_of [] a = (None :: ('a option \<times> 'b option) option)"
      by simp
    from strip_tree_new [OF this Some]
    have "v = (request (h ! a), extra_context (h ! a))" "?h ! a = strip_transient (h ! a)"
      by simp_all
    with Some d a show ?thesis
      by (simp add: restore_nth strip_restore)
  qed
  with eq show "CacheableComponent_exit (fst (CacheableComponent_enter h r))
     (snd (CacheableComponent_enter h r)) ! a = h ! a"
    by simp
qed

lemma in_tree_stripped:
  assumes "in_tree h r a"
  shows "snd (CacheableComponent_enter h r) ! a = strip_transient (h ! a)"
proof -
  from assms obtain v where v: "map_of (fst (strip_tree h [r] [])) a = Some v"
    using in_tree_saved by fastforce
  have "map_of [] a = (None :: ('a option \<times> 'b option) option)"
    by simp
  from strip_tree_new [OF this v] show ?thesis
    by (simp add: enter_heap del: strip_tree.simps)
qed

text \<open>
  The two tests, run on the model: inside the scope every component of the tree has
  lost both references, and after it the store is the one the test started from.
\<close>

lemma test_children_have_request_set:
  "snd (CacheableComponent_enter children_heap 0) = map strip_transient children_heap \<and>
   CacheableComponent_exit (fst (CacheableComponent_enter children_heap 0))
     (snd (CacheableComponent_enter children_heap 0)) = children_heap"
  by code_simp

lemma test_parents_have_request_restored:
  "snd (CacheableComponent_enter parents_heap 2) = map strip_transient parents_heap \<and>
   CacheableComponent_exit (fst (CacheableComponent_enter parents_heap 2))
     (snd (CacheableComponent_enter parents_heap 2)) = parents_heap"
  by code_simp

lemma in_subtree_children_heap: "in_subtree children_heap 0 3"
proof -
  have "in_subtree children_heap 0 0"
    by (rule in_subtree.root) (simp add: children_heap_def)
  then have "in_subtree children_heap 0 2"
    by (rule in_subtree.child) (simp_all add: children_heap_def FakeComponent_def)
  then show ?thesis
    by (rule in_subtree.child) (simp_all add: children_heap_def FakeComponent_def)
qed

lemma in_parent_chain_parents_heap: "in_parent_chain parents_heap 2 0"
proof -
  have "in_parent_chain parents_heap 2 2"
    by (rule in_parent_chain.start) (simp add: parents_heap_def)
  then have "in_parent_chain parents_heap 2 1"
    by (rule in_parent_chain.up) (simp_all add: parents_heap_def FakeComponent_def)
  then show ?thesis
    by (rule in_parent_chain.up) (simp_all add: parents_heap_def FakeComponent_def)
qed

text \<open>
  C1. For every component tree, entering the wrapper on a component \<open>r\<close> sets the
  request and the extra context of \<open>r\<close> and of every descendant \<open>d\<close> of \<open>r\<close> to
  \<open>None\<close> for the scope, and leaving the scope gives each of the two fields the value
  it had before entry.
\<close>

theorem CacheableComponent_descendants:
  assumes "in_subtree h r d"
  shows "request (snd (CacheableComponent_enter h r) ! d) = None \<and>
    extra_context (snd (CacheableComponent_enter h r) ! d) = None \<and>
    request (CacheableComponent_exit (fst (CacheableComponent_enter h r))
      (snd (CacheableComponent_enter h r)) ! d) = request (h ! d) \<and>
    extra_context (CacheableComponent_exit (fst (CacheableComponent_enter h r))
      (snd (CacheableComponent_enter h r)) ! d) = extra_context (h ! d)"
  using in_tree_stripped [OF in_subtree_in_tree [OF assms]]
  by (simp add: enter_exit_identity strip_transient_def)

theorem CacheableComponent_descendants_witness:
  "in_subtree children_heap 0 3 \<and>
   request (snd (CacheableComponent_enter children_heap 0) ! 3) = None \<and>
   extra_context (snd (CacheableComponent_enter children_heap 0) ! 3) = None \<and>
   request (CacheableComponent_exit (fst (CacheableComponent_enter children_heap 0))
      (snd (CacheableComponent_enter children_heap 0)) ! 3) = Some 7 \<and>
   extra_context (CacheableComponent_exit (fst (CacheableComponent_enter children_heap 0))
      (snd (CacheableComponent_enter children_heap 0)) ! 3) = Some ''extra_content''"
proof -
  have sub: "in_subtree children_heap 0 3"
    by (rule in_subtree_children_heap)
  have "request (children_heap ! 3) = Some 7"
    "extra_context (children_heap ! 3) = Some ''extra_content''"
    by (simp_all add: children_heap_def FakeComponent_def)
  with sub CacheableComponent_descendants [OF sub] show ?thesis
    by simp
qed

text \<open>
  C2. For a component \<open>r\<close> with a chain of parents, entering the wrapper on \<open>r\<close>
  also sets the request and the extra context of every ancestor \<open>a\<close> to \<open>None\<close> for
  the scope, and leaving the scope restores them: the first half of the statement.
  The second half: the same holds of every component reached from \<open>r\<close> by parent
  and child links, so the whole tree is covered and not only \<open>r\<close> and its
  descendants.
\<close>

theorem CacheableComponent_parents:
  "(in_parent_chain h r a \<longrightarrow>
      request (snd (CacheableComponent_enter h r) ! a) = None \<and>
      extra_context (snd (CacheableComponent_enter h r) ! a) = None \<and>
      request (CacheableComponent_exit (fst (CacheableComponent_enter h r))
        (snd (CacheableComponent_enter h r)) ! a) = request (h ! a) \<and>
      extra_context (CacheableComponent_exit (fst (CacheableComponent_enter h r))
        (snd (CacheableComponent_enter h r)) ! a) = extra_context (h ! a)) \<and>
   (in_tree h r a \<longrightarrow>
      request (snd (CacheableComponent_enter h r) ! a) = None \<and>
      extra_context (snd (CacheableComponent_enter h r) ! a) = None \<and>
      request (CacheableComponent_exit (fst (CacheableComponent_enter h r))
        (snd (CacheableComponent_enter h r)) ! a) = request (h ! a) \<and>
      extra_context (CacheableComponent_exit (fst (CacheableComponent_enter h r))
        (snd (CacheableComponent_enter h r)) ! a) = extra_context (h ! a))"
proof -
  have "in_tree h r a \<Longrightarrow> snd (CacheableComponent_enter h r) ! a = strip_transient (h ! a)"
    by (rule in_tree_stripped)
  moreover have "in_parent_chain h r a \<Longrightarrow> in_tree h r a"
    by (rule in_parent_chain_in_tree)
  ultimately show ?thesis
    by (auto simp add: enter_exit_identity strip_transient_def)
qed

theorem CacheableComponent_parents_witness:
  "in_parent_chain parents_heap 2 0 \<and> in_tree parents_heap 2 0 \<and>
   request (snd (CacheableComponent_enter parents_heap 2) ! 0) = None \<and>
   extra_context (snd (CacheableComponent_enter parents_heap 2) ! 0) = None \<and>
   request (CacheableComponent_exit (fst (CacheableComponent_enter parents_heap 2))
      (snd (CacheableComponent_enter parents_heap 2)) ! 0) = Some 7 \<and>
   extra_context (CacheableComponent_exit (fst (CacheableComponent_enter parents_heap 2))
      (snd (CacheableComponent_enter parents_heap 2)) ! 0) = Some ''extra_content''"
proof -
  have chain: "in_parent_chain parents_heap 2 0"
    by (rule in_parent_chain_parents_heap)
  then have tree: "in_tree parents_heap 2 0"
    by (rule in_parent_chain_in_tree)
  have "request (parents_heap ! 0) = Some 7"
    "extra_context (parents_heap ! 0) = Some ''extra_content''"
    by (simp_all add: parents_heap_def FakeComponent_def)
  with chain tree CacheableComponent_parents [of parents_heap 2 0] show ?thesis
    by simp
qed

end
